theory Spec2Isabelle
  imports Complex_Main "HOL-Library.Multiset" "HOL-Library.Sublist"
begin

section \<open>Data model\<close>

text \<open>
  Exceptions are values. The constructors are the Python exceptions the modelled code
  raises by itself; \<open>External\<close> stands for an exception raised inside a collaborator
  (the chat model, the vector store, the embedding endpoint, the file system), carried by
  the name of its class and its message. Every value is an instance of \<open>Exception\<close>.
\<close>

datatype error =
    KeyError string
  | AttributeError
  | IndexError
  | ValueError
  | JSONDecodeError string
  | External string string

text \<open>
  A langchain \<open>Document\<close>: the text and the metadata dictionary. Metadata values are
  strings (the chat id, the title, the participants, the source id).
\<close>

record Document =
  page_content :: string
  metadata :: "string \<rightharpoonup> string"

text \<open>
  The values a pipeline context holds: a string (\<open>question\<close>, \<open>answer\<close>) or a list
  (\<open>query_variations\<close>: strings, \<open>retrieved_messages\<close>: documents). Python does not
  check the annotations, so a list may hold either kind of item.
\<close>

datatype py_item = PStr string | PDoc Document

datatype py_value = VStr string | VList "py_item list"

type_synonym ctx = "string \<rightharpoonup> py_value"

subsection \<open>Constants of src/constants.py\<close>

definition SOURCE :: string where
  \<comment> \<open>Modelled from the spec: src/constants.py is not among the sources; ingestion.py writes
     the key as the literal "source" and retrieval.py reads it as SOURCE.\<close>
  "SOURCE = ''source''"

definition QUESTION :: string where
  \<comment> \<open>Modelled from the spec: src/constants.py is not among the sources; the key is the
     placeholder of answer_formulation_template and the context field of the spec.\<close>
  "QUESTION = ''question''"

definition QUERY_VARIATIONS :: string where
  \<comment> \<open>Modelled from the spec: src/constants.py is not among the sources; the context field
     of the spec.\<close>
  "QUERY_VARIATIONS = ''query_variations''"

definition RETRIEVED_MESSAGES :: string where
  \<comment> \<open>Modelled from the spec: src/constants.py is not among the sources; the key is the
     placeholder of answer_formulation_template and the context field of the spec.\<close>
  "RETRIEVED_MESSAGES = ''retrieved_messages''"

definition ANSWER :: string where
  \<comment> \<open>Modelled from the spec: src/constants.py is not among the sources; the context field
     of the spec.\<close>
  "ANSWER = ''answer''"

definition CHAT_ID :: string where
  \<comment> \<open>Modelled from the spec: src/constants.py is not among the sources; the metadata key
     of the conversation identifier.\<close>
  "CHAT_ID = ''chat_id''"

subsection \<open>Python helpers\<close>

definition py_get :: "('k \<rightharpoonup> 'v) \<Rightarrow> 'k \<Rightarrow> 'v \<Rightarrow> 'v" where
  \<comment> \<open>\<open>d.get(k, default)\<close>\<close>
  "py_get d k dflt = (case d k of None \<Rightarrow> dflt | Some v \<Rightarrow> v)"

definition py_iter :: "py_value \<Rightarrow> py_item list" where
  \<comment> \<open>\<open>for x in v\<close>: a list yields its items, a string its characters as strings
     (the characters of the model's strings).\<close>
  "py_iter v = (case v of VList xs \<Rightarrow> xs | VStr s \<Rightarrow> map (\<lambda>c. PStr [c]) s)"

definition py_slice_to :: "int \<Rightarrow> 'a list \<Rightarrow> 'a list" where
  \<comment> \<open>\<open>xs[:k]\<close>: a negative \<open>k\<close> counts from the end.\<close>
  "py_slice_to k xs =
     (if k < 0 then take (nat (int (length xs) + k)) xs else take (nat k) xs)"

definition dict_with_input :: "string \<Rightarrow> py_value \<Rightarrow> ctx \<Rightarrow> ctx" where
  \<comment> \<open>\<open>{KEY: value, **input_}\<close>: the entries of \<open>input_\<close> come last, so where
     \<open>input_\<close> already holds \<open>KEY\<close> its value is the one kept.\<close>
  "dict_with_input key v input = [key \<mapsto> v] ++ input"

section \<open>Retrieval (src/runnables/retrieval.py)\<close>

text \<open>
  A scored candidate is a \<open>(Document, score)\<close> tuple. The score is a Python float; the
  code only compares scores, so the model takes any linearly ordered type (a float that is
  not NaN).
\<close>

type_synonym 's scored = "Document \<times> 's"

record 's MessageRetrieval =
  vector_store :: "py_item \<Rightarrow> int \<Rightarrow> error + 's scored list"
  max_returned_search :: int
  top_k_results :: int

text \<open>
  The deduplication loop of \<open>_process_documents\<close>:
  \<^verbatim>\<open>
  seen_sources = set()
  unique_retrieved_docs = []
  for doc, score in all_retrieved_docs:
      if doc.metadata[SOURCE] not in seen_sources:
          seen_sources.add(doc.metadata[SOURCE])
          unique_retrieved_docs.append((doc, score))
  \<close>
  \<open>doc.metadata[SOURCE]\<close> raises KeyError when the key is missing.
\<close>

fun dedup_loop ::
  "'s scored list \<Rightarrow> string set \<Rightarrow> 's scored list \<Rightarrow> error + 's scored list" where
  "dedup_loop [] seen_sources unique_retrieved_docs = Inr unique_retrieved_docs"
| "dedup_loop ((doc, score) # rest) seen_sources unique_retrieved_docs =
     (case metadata doc SOURCE of
        None \<Rightarrow> Inl (KeyError SOURCE)
      | Some src \<Rightarrow>
          if src \<notin> seen_sources
          then dedup_loop rest (insert src seen_sources) (unique_retrieved_docs @ [(doc, score)])
          else dedup_loop rest seen_sources unique_retrieved_docs)"

text \<open>
  The rest of \<open>_process_documents\<close>, in steps named after its local variables: the
  deduplicated list, the list after \<open>sort(key=lambda x: x[1])\<close> (a stable sort, as
  \<open>sort_key\<close> is) and the slice, and the documents without their scores.
\<close>

definition unique_retrieved_docs :: "'s scored list \<Rightarrow> error + 's scored list" where
  "unique_retrieved_docs all_retrieved_docs = dedup_loop all_retrieved_docs {} []"

definition top_docs :: "int \<Rightarrow> ('s::linorder) scored list \<Rightarrow> error + 's scored list" where
  \<comment> \<open>the stable sort by score, then the slice \<open>[: self.top_k_results]\<close>\<close>
  "top_docs top_k all_retrieved_docs =
     (case unique_retrieved_docs all_retrieved_docs of
        Inl e \<Rightarrow> Inl e
      | Inr u \<Rightarrow> Inr (py_slice_to top_k (sort_key snd u)))"

definition process_documents :: "int \<Rightarrow> ('s::linorder) scored list \<Rightarrow> error + Document list" where
  "process_documents top_k all_retrieved_docs =
     (case top_docs top_k all_retrieved_docs of
        Inl e \<Rightarrow> Inl e
      | Inr t \<Rightarrow> Inr (map fst t))"

text \<open>
  The search loop of \<open>invoke\<close> (and of \<open>ainvoke\<close>, which differs only in awaiting the
  call). The list of calls made to the vector store is part of the result, so that a
  statement can say which calls were made. An exception of the store ends the loop.
\<close>

fun search_loop ::
  "(py_item \<Rightarrow> int \<Rightarrow> error + 's scored list) \<Rightarrow> int \<Rightarrow> py_item list \<Rightarrow>
   (py_item \<times> int) list \<Rightarrow> 's scored list \<Rightarrow> (py_item \<times> int) list \<times> (error + 's scored list)" where
  "search_loop store k [] calls all_retrieved_docs = (calls, Inr all_retrieved_docs)"
| "search_loop store k (query # rest) calls all_retrieved_docs =
     (case store query k of
        Inl e \<Rightarrow> (calls @ [(query, k)], Inl e)
      | Inr docs \<Rightarrow> search_loop store k rest (calls @ [(query, k)]) (all_retrieved_docs @ docs))"

definition MessageRetrieval_invoke ::
  "('s::linorder) MessageRetrieval \<Rightarrow> ctx \<Rightarrow> (py_item \<times> int) list \<times> (error + ctx)" where
  "MessageRetrieval_invoke self input =
     (let query_variations = py_get input QUERY_VARIATIONS (VList []) in
      case search_loop (vector_store self) (max_returned_search self)
             (py_iter query_variations) [] [] of
        (calls, Inl e) \<Rightarrow> (calls, Inl e)
      | (calls, Inr all_retrieved_docs) \<Rightarrow>
          (case process_documents (top_k_results self) all_retrieved_docs of
             Inl e \<Rightarrow> (calls, Inl e)
           | Inr retrieved_messages \<Rightarrow>
               (calls, Inr (dict_with_input RETRIEVED_MESSAGES
                              (VList (map PDoc retrieved_messages)) input))))"



section \<open>Query expansion (src/runnables/query_variation.py)\<close>

record QueryVariationOutput =
  query_variations :: "string list"

text \<open>
  A chat model bound to an output schema by \<open>with_structured_output\<close>, as a function of
  what it is invoked with: the call raises (the endpoint cannot be reached, the output
  parser raises on output that does not fit the schema, the messages cannot be built from
  the content), returns \<open>None\<close> (no parsed output) or returns the parsed output.
\<close>

type_synonym ('q, 'r) structured_llm = "'q \<Rightarrow> error + 'r option"

text \<open>
  \<open>llm_instance\<close> is the attribute of the stage, seen through the one method the stage
  calls: \<open>self.llm_instance.with_structured_output(schema=QueryVariationOutput)\<close> raises
  or returns the structured model. The structured model is invoked with the fixed system
  message \<open>query_variation_prompt\<close> and a human message; it is a function of the content
  of the human message. Attribute access on \<open>None\<close> raises AttributeError. \<open>ainvoke\<close>
  differs only in awaiting the call.
\<close>

record QueryVariation =
  llm_instance :: "error + (py_value, QueryVariationOutput) structured_llm"

definition QueryVariation_invoke :: "QueryVariation \<Rightarrow> ctx \<Rightarrow> error + ctx" where
  "QueryVariation_invoke self input =
     (let query = py_get input QUESTION (VStr []) in
      case llm_instance self of
        Inl e \<Rightarrow> Inl e
      | Inr structured_llm \<Rightarrow>
          (case structured_llm query of
             Inl e \<Rightarrow> Inl e
           | Inr None \<Rightarrow> Inl AttributeError
           | Inr (Some response) \<Rightarrow>
               Inr (dict_with_input QUERY_VARIATIONS
                      (VList (map PStr (query_variations response))) input)))"


section \<open>Answer synthesis (src/runnables/answer.py, src/prompts.py)\<close>

definition answer_formulation_prompt :: string where
  "answer_formulation_prompt =
     ''You are a helpful assistant that answers questions based on the provided context from a chat history. '' @
     ''Use the context to provide accurate and relevant answers. '' @
     ''If the context does not contain enough information to answer the question, respond with '' @
     '''I'm sorry, but I don't have enough information to answer that question.' '' @
     ''Be concise and to the point in your responses.''"

definition answer_formulation_template :: string where
  "answer_formulation_template =
     ''Question: {question}'' @ [CHR 0x0A] @ ''Messages: {retrieved_messages}''"


record FormulatedAnswerOutput =
  answer :: string

text \<open>
  What the chain \<open>messages_template | structured_llm\<close> is invoked with: the system
  message, the template of the human message and the two values for its placeholders.
\<close>

record answer_request =
  system_message :: string
  human_template :: string
  question_value :: py_value
  retrieved_messages_value :: string

text \<open>
  \<open>answer_llm_instance\<close> is the attribute \<open>llm_instance\<close> of the stage, seen through
  \<open>with_structured_output(schema=FormulatedAnswerOutput)\<close>, which is called before the
  page contents are read.
\<close>

record FormulateAnswer =
  answer_llm_instance :: "error + (answer_request, FormulatedAnswerOutput) structured_llm"

fun page_contents :: "py_item list \<Rightarrow> error + string list" where
  \<comment> \<open>\<open>[msg.page_content for msg in retrieved_messages]\<close>: a string has no such attribute\<close>
  "page_contents [] = Inr []"
| "page_contents (PDoc d # rest) =
     (case page_contents rest of Inl e \<Rightarrow> Inl e | Inr cs \<Rightarrow> Inr (page_content d # cs))"
| "page_contents (PStr s # rest) = Inl AttributeError"

fun join :: "string \<Rightarrow> string list \<Rightarrow> string" where
  \<comment> \<open>\<open>sep.join(xs)\<close>\<close>
  "join sep [] = []"
| "join sep [x] = x"
| "join sep (x # y # ys) = x @ sep @ join sep (y # ys)"

definition FormulateAnswer_invoke :: "FormulateAnswer \<Rightarrow> ctx \<Rightarrow> error + ctx" where
  "FormulateAnswer_invoke self input =
     (let retrieved_messages = py_get input RETRIEVED_MESSAGES (VList []);
          question = py_get input QUESTION (VStr [])
      in case answer_llm_instance self of
           Inl e \<Rightarrow> Inl e
         | Inr structured_llm \<Rightarrow>
             (case page_contents (py_iter retrieved_messages) of
                Inl e \<Rightarrow> Inl e
              | Inr contents \<Rightarrow>
                  (let messages_content = join [CHR 0x0A] contents in
                   case structured_llm
                          \<lparr>system_message = answer_formulation_prompt,
                           human_template = answer_formulation_template,
                           question_value = question,
                           retrieved_messages_value = messages_content\<rparr> of
                     Inl e \<Rightarrow> Inl e
                   | Inr None \<Rightarrow> Inl AttributeError
                   | Inr (Some response) \<Rightarrow>
                       Inr (dict_with_input ANSWER (VStr (answer response)) input))))"

section \<open>Embeddings (src/embeddings/nomic.py)\<close>










section \<open>Loading (src/loaders/messenger_loader.py)\<close>

text \<open>
  The file system as \<open>lazy_load\<close> sees it: joining a directory name to \<open>data_dir\<close>,
  whether a path exists, the paths matching \<^verbatim>\<open>**/*.json\<close> under a directory, whether a
  path is a regular file, and what \<open>_parse_file\<close> does on a path: it returns a document
  or raises (a JSON decoding error, a missing key, a decoding error, ...). The calls
  \<open>exists()\<close>, \<open>glob()\<close> and \<open>is_file()\<close> can raise too (a PermissionError for an entry
  that can be listed but not examined).
\<close>

record file_system =
  joinpath :: "string \<Rightarrow> string \<Rightarrow> string"
  path_exists :: "string \<Rightarrow> error + bool"
  glob_json :: "string \<Rightarrow> error + string list"
  path_is_file :: "string \<Rightarrow> error + bool"
  parse_file :: "string \<Rightarrow> error + Document"

record MetaMessengerLoader =
  data_dir :: string
  allowed_dirs :: "string list"

text \<open>
  A log record: a warning or an information about a path, or an error with the start of
  its message, the path and the exception.
\<close>

datatype log_record =
    LogWarning string
  | LogInfo string
  | LogError string string error

text \<open>
  The state of the generator: the log written, the documents yielded so far, and the
  exception that ended the generator, if one did.
\<close>

record load_state =
  logged :: "log_record list"
  yielded :: "Document list"
  raised :: "error option"

definition is_JSONDecodeError :: "error \<Rightarrow> bool" where
  "is_JSONDecodeError e = (case e of JSONDecodeError m \<Rightarrow> True | _ \<Rightarrow> False)"

text \<open>
  The loop over the files of one directory. \<open>file_path.is_file()\<close> stands outside the
  \<open>try\<close>: an exception it raises ends the generator. The \<open>try\<close> holds the call of
  \<open>_parse_file\<close> alone, with a handler for \<open>json.JSONDecodeError\<close> and one for
  \<open>Exception\<close>.
\<close>

fun files_loop :: "file_system \<Rightarrow> string list \<Rightarrow> load_state \<Rightarrow> load_state" where
  "files_loop fs [] st = st"
| "files_loop fs (file_path # rest) st =
     (case path_is_file fs file_path of
        Inl e \<Rightarrow> st\<lparr>raised := Some e\<rparr>
      | Inr is_file \<Rightarrow>
          files_loop fs rest
            (if is_file
             then (case parse_file fs file_path of
                     Inr doc \<Rightarrow> st\<lparr>yielded := yielded st @ [doc]\<rparr>
                   | Inl e \<Rightarrow>
                       if is_JSONDecodeError e
                       then st\<lparr>logged := logged st @ [LogError ''Failed to parse'' file_path e]\<rparr>
                       else st\<lparr>logged := logged st @
                              [LogError ''Unexpected error while processing'' file_path e]\<rparr>)
             else st\<lparr>logged := logged st @ [LogWarning file_path]\<rparr>))"

fun dirs_loop :: "file_system \<Rightarrow> string \<Rightarrow> string list \<Rightarrow> load_state \<Rightarrow> load_state" where
  "dirs_loop fs data [] st = st"
| "dirs_loop fs data (allowed_dir # rest) st =
     (let dir_path = joinpath fs data allowed_dir in
      case path_exists fs dir_path of
        Inl e \<Rightarrow> st\<lparr>raised := Some e\<rparr>
      | Inr exists \<Rightarrow>
          if \<not> exists
          then dirs_loop fs data rest (st\<lparr>logged := logged st @ [LogWarning dir_path]\<rparr>)
          else (let st1 = st\<lparr>logged := logged st @ [LogInfo dir_path]\<rparr> in
                case glob_json fs dir_path of
                  Inl e \<Rightarrow> st1\<lparr>raised := Some e\<rparr>
                | Inr file_paths \<Rightarrow>
                    if file_paths = []
                    then dirs_loop fs data rest (st1\<lparr>logged := logged st1 @ [LogWarning dir_path]\<rparr>)
                    else (let st2 = files_loop fs file_paths st1 in
                          case raised st2 of
                            Some e \<Rightarrow> st2
                          | None \<Rightarrow> dirs_loop fs data rest st2)))"

definition lazy_load :: "MetaMessengerLoader \<Rightarrow> file_system \<Rightarrow> load_state" where
  "lazy_load self fs =
     dirs_loop fs (data_dir self) (allowed_dirs self) \<lparr>logged = [], yielded = [], raised = None\<rparr>"

text \<open>
  The documents a list of paths contributes when every file is handled on its own: the
  documents of the regular files that parse, in order. A directory contributes the
  documents of its files when it exists.
\<close>

definition documents_of_files :: "file_system \<Rightarrow> string list \<Rightarrow> Document list" where
  "documents_of_files fs file_paths =
     concat (map (\<lambda>file_path. case parse_file fs file_path of Inr doc \<Rightarrow> [doc] | Inl e \<Rightarrow> [])
               (filter (\<lambda>file_path. path_is_file fs file_path = Inr True) file_paths))"

definition documents_of_dir :: "file_system \<Rightarrow> string \<Rightarrow> Document list" where
  "documents_of_dir fs dir_path =
     (if path_exists fs dir_path = Inr True
      then (case glob_json fs dir_path of Inr file_paths \<Rightarrow> documents_of_files fs file_paths | Inl e \<Rightarrow> [])
      else [])"

definition error_record :: "string \<Rightarrow> error \<Rightarrow> log_record" where
  \<comment> \<open>the record either handler of \<open>lazy_load\<close> writes for a file and its exception\<close>
  "error_record file_path e =
     (if is_JSONDecodeError e then LogError ''Failed to parse'' file_path e
      else LogError ''Unexpected error while processing'' file_path e)"

text \<open>
  The calls outside the \<open>try\<close> do not raise: \<open>is_file()\<close> on the listed paths, and for a
  directory \<open>exists()\<close> and, where it exists, \<open>glob()\<close> and \<open>is_file()\<close> on what it lists.
\<close>

definition files_accessible :: "file_system \<Rightarrow> string list \<Rightarrow> bool" where
  "files_accessible fs file_paths =
     list_all (\<lambda>file_path. case path_is_file fs file_path of Inl e \<Rightarrow> False | Inr b \<Rightarrow> True) file_paths"

definition dir_accessible :: "file_system \<Rightarrow> string \<Rightarrow> bool" where
  "dir_accessible fs dir_path =
     (case path_exists fs dir_path of
        Inl e \<Rightarrow> False
      | Inr exists \<Rightarrow>
          if exists
          then (case glob_json fs dir_path of Inl e \<Rightarrow> False | Inr file_paths \<Rightarrow> files_accessible fs file_paths)
          else True)"

definition dirs_accessible :: "MetaMessengerLoader \<Rightarrow> file_system \<Rightarrow> bool" where
  "dirs_accessible self fs =
     list_all (\<lambda>allowed_dir. dir_accessible fs (joinpath fs (data_dir self) allowed_dir)) (allowed_dirs self)"

section \<open>Source ids (ingestion.py)\<close>

text \<open>
  \<open>str(i)\<close> for the index \<open>i\<close> of \<open>enumerate\<close>: the decimal digits.
\<close>

definition digit_char :: "nat \<Rightarrow> char" where
  "digit_char d = ''0123456789'' ! d"

function str_nat :: "nat \<Rightarrow> string" where
  "str_nat n = (if n < 10 then [digit_char n] else str_nat (n div 10) @ [digit_char (n mod 10)])"
  by pat_completeness auto
termination
  by (relation "measure id") auto

declare str_nat.simps [simp del]

text \<open>
  The loop
  \<^verbatim>\<open>
  for i, text in enumerate(texts):
      text.metadata["source"] = f"{text.metadata.get(CHAT_ID, 'blank')}-{i}"
  \<close>
  writes into the metadata dictionary of each chunk in place. A chunk holds a reference
  to its dictionary; the store maps references to dictionaries, so that two chunks
  sharing one dictionary are expressible.
\<close>

record chunk =
  chunk_content :: string
  metadata_ref :: nat

type_synonym store = "nat \<Rightarrow> (string \<rightharpoonup> string)"

definition source_id_format :: "(string \<rightharpoonup> string) \<Rightarrow> nat \<Rightarrow> string" where
  "source_id_format md i = py_get md CHAT_ID ''blank'' @ ''-'' @ str_nat i"

fun assign_loop :: "(nat \<times> chunk) list \<Rightarrow> store \<Rightarrow> store" where
  "assign_loop [] h = h"
| "assign_loop ((i, text) # rest) h =
     assign_loop rest
       (h(metadata_ref text := (h (metadata_ref text))(''source'' \<mapsto> source_id_format (h (metadata_ref text)) i)))"

definition assign_sources :: "chunk list \<Rightarrow> store \<Rightarrow> store" where
  "assign_sources texts h = assign_loop (enumerate 0 texts) h"

definition indexed_document :: "store \<Rightarrow> chunk \<Rightarrow> Document" where
  \<comment> \<open>the document the vector store receives for a chunk\<close>
  "indexed_document h text = \<lparr>page_content = chunk_content text, metadata = h (metadata_ref text)\<rparr>"

text \<open>
  The spec's reading of the sequence number, stated for comparison with the code: the
  number of earlier chunks of the same conversation.
\<close>

definition spec_index_in_conversation :: "chunk list \<Rightarrow> store \<Rightarrow> nat \<Rightarrow> nat" where
  "spec_index_in_conversation texts h j =
     length (filter (\<lambda>t. py_get (h (metadata_ref t)) CHAT_ID ''blank'' =
                          py_get (h (metadata_ref (texts ! j))) CHAT_ID ''blank'')
               (take j texts))"

section \<open>Example inputs\<close>

definition docX :: Document where
  "docX = \<lparr>page_content = ''message X'', metadata = [SOURCE \<mapsto> ''conv1-4'']\<rparr>"

definition docY :: Document where
  "docY = \<lparr>page_content = ''message Y'', metadata = [SOURCE \<mapsto> ''conv1-7'']\<rparr>"

definition pool_two_queries :: "real scored list" where
  \<comment> \<open>query "a" returns X with 0.9, query "b" returns X with 0.1\<close>
  "pool_two_queries = [(docX, 0.9), (docX, 0.1)]"

definition pool_three :: "real scored list" where
  \<comment> \<open>query "a" returns Y with 0.5 and X with 0.9, query "b" returns X with 0.1\<close>
  "pool_three = [(docY, 0.5), (docX, 0.9), (docX, 0.1)]"

definition store_ab :: "py_item \<Rightarrow> int \<Rightarrow> error + real scored list" where
  "store_ab q k =
     (if q = PStr ''a'' then Inr [(docY, 0.5), (docX, 0.9)]
      else if q = PStr ''b'' then Inr [(docX, 0.1)]
      else Inr [])"

definition retrieval_ab :: "real MessageRetrieval" where
  "retrieval_ab = \<lparr>vector_store = store_ab, max_returned_search = 10, top_k_results = 20\<rparr>"

definition ctx_ab :: ctx where
  "ctx_ab = [QUESTION \<mapsto> VStr ''Where did we discuss buying rings?'',
             QUERY_VARIATIONS \<mapsto> VList [PStr ''a'', PStr ''b'']]"

definition ctx_no_variations :: ctx where
  "ctx_no_variations = [QUESTION \<mapsto> VStr ''Where did we discuss buying rings?'',
                        QUERY_VARIATIONS \<mapsto> VList []]"


definition expansion_ring :: QueryVariation where
  "expansion_ring =
     \<lparr>llm_instance =
        Inr (\<lambda>q. Inr (Some \<lparr>query_variations = [''I bought a ring at the jewelry shop yesterday.'']\<rparr>))\<rparr>"




definition synthesis_other :: FormulateAnswer where
  \<comment> \<open>a chat model that answers with another sentence\<close>
  "synthesis_other =
     \<lparr>answer_llm_instance = Inr (\<lambda>r. Inr (Some \<lparr>answer = ''There are no messages about rings.''\<rparr>))\<rparr>"


definition doc_of_file :: "string \<Rightarrow> Document" where
  \<comment> \<open>the document an example file parses into\<close>
  "doc_of_file p = \<lparr>page_content = p, metadata = Map.empty\<rparr>"

definition fs_example :: file_system where
  \<comment> \<open>three files, the second of which does not parse\<close>
  "fs_example =
     \<lparr>joinpath = (\<lambda>a b. a @ ''/'' @ b),
      path_exists = (\<lambda>p. Inr True),
      glob_json = (\<lambda>d. Inr [''a.json'', ''bad.json'', ''c.json'']),
      path_is_file = (\<lambda>p. Inr True),
      parse_file = (\<lambda>p. if p = ''bad.json'' then Inl (JSONDecodeError ''Expecting value'')
                         else Inr (doc_of_file p))\<rparr>"

definition fs_locked :: file_system where
  \<comment> \<open>three files that all parse; the second is listed by \<open>glob\<close>, but \<open>is_file()\<close> on it
     raises PermissionError\<close>
  "fs_locked =
     \<lparr>joinpath = (\<lambda>a b. a @ ''/'' @ b),
      path_exists = (\<lambda>p. Inr True),
      glob_json = (\<lambda>d. Inr [''a.json'', ''locked.json'', ''c.json'']),
      path_is_file = (\<lambda>p. if p = ''locked.json''
                           then Inl (External ''PermissionError'' ''[Errno 13] Permission denied'')
                           else Inr True),
      parse_file = (\<lambda>p. Inr (doc_of_file p))\<rparr>"

definition loader_example :: MetaMessengerLoader where
  "loader_example = \<lparr>data_dir = ''mb'', allowed_dirs = [''inbox'']\<rparr>"

definition texts_example :: "chunk list" where
  \<comment> \<open>one chunk of conversation alice, then one chunk of conversation bob\<close>
  "texts_example = [\<lparr>chunk_content = ''hello'', metadata_ref = 0\<rparr>,
                    \<lparr>chunk_content = ''world'', metadata_ref = 1\<rparr>]"

definition store_example :: store where
  "store_example = (\<lambda>r. if r = 0 then [CHAT_ID \<mapsto> ''alice''] else [CHAT_ID \<mapsto> ''bob''])"

definition texts_shared :: "chunk list" where
  \<comment> \<open>two chunks that hold the same metadata dictionary\<close>
  "texts_shared = [\<lparr>chunk_content = ''hello'', metadata_ref = 0\<rparr>,
                   \<lparr>chunk_content = ''world'', metadata_ref = 0\<rparr>]"

section \<open>Retrieval: lemmas\<close>

lemma find_append_case:
  "find P (xs @ ys) = (case find P xs of None \<Rightarrow> find P ys | Some x \<Rightarrow> Some x)"
  by (induction xs) auto


lemma dedup_loop_distinct:
  "dedup_loop pool seen acc = Inr res \<Longrightarrow> distinct (map (\<lambda>p. metadata (fst p) SOURCE) acc) \<Longrightarrow>
   (\<lambda>p. metadata (fst p) SOURCE) ` set acc \<subseteq> Some ` seen \<Longrightarrow>
   distinct (map (\<lambda>p. metadata (fst p) SOURCE) res)"
proof (induction pool arbitrary: seen acc)
  case Nil
  then show ?case by simp
next
  case (Cons p pool)
  obtain doc score where p: "p = (doc, score)" by (cases p)
  from Cons.prems(1) obtain s where s: "metadata doc SOURCE = Some s"
    by (auto simp: p split: option.splits)
  show ?case
  proof (cases "s \<in> seen")
    case True
    with Cons.prems s have "dedup_loop pool seen acc = Inr res" by (simp add: p)
    from Cons.IH[OF this Cons.prems(2,3)] show ?thesis .
  next
    case False
    with Cons.prems s have run: "dedup_loop pool (insert s seen) (acc @ [(doc, score)]) = Inr res"
      by (simp add: p)
    have d: "distinct (map (\<lambda>p. metadata (fst p) SOURCE) (acc @ [(doc, score)]))"
      using Cons.prems(2,3) False s by auto
    have sub: "(\<lambda>p. metadata (fst p) SOURCE) ` set (acc @ [(doc, score)]) \<subseteq> Some ` insert s seen"
      using Cons.prems(3) s by auto
    from Cons.IH[OF run d sub] show ?thesis .
  qed
qed

lemma dedup_loop_find:
  "dedup_loop pool seen acc = Inr res \<Longrightarrow> Some ` seen = (\<lambda>p. metadata (fst p) SOURCE) ` set acc \<Longrightarrow>
   find (\<lambda>q. metadata (fst q) SOURCE = Some s) res =
   find (\<lambda>q. metadata (fst q) SOURCE = Some s) (acc @ pool)"
proof (induction pool arbitrary: seen acc)
  case Nil
  then show ?case by simp
next
  case (Cons p pool)
  obtain doc score where p: "p = (doc, score)" by (cases p)
  from Cons.prems(1) obtain t where t: "metadata doc SOURCE = Some t"
    by (auto simp: p split: option.splits)
  show ?case
  proof (cases "t \<in> seen")
    case True
    with Cons.prems t have run: "dedup_loop pool seen acc = Inr res" by (simp add: p)
    have ih: "find (\<lambda>q. metadata (fst q) SOURCE = Some s) res =
              find (\<lambda>q. metadata (fst q) SOURCE = Some s) (acc @ pool)"
      using Cons.IH[OF run Cons.prems(2)] .
    from True Cons.prems(2) have "Some t \<in> (\<lambda>p. metadata (fst p) SOURCE) ` set acc" by blast
    then obtain a where a: "a \<in> set acc" "metadata (fst a) SOURCE = Some t" by force
    show ?thesis
    proof (cases "s = t")
      case True
      with a have "find (\<lambda>q. metadata (fst q) SOURCE = Some s) acc \<noteq> None"
        unfolding find_None_iff by blast
      then show ?thesis using ih by (auto simp: find_append_case split: option.splits)
    next
      case False
      then show ?thesis using ih t by (auto simp: find_append_case p split: option.splits)
    qed
  next
    case False
    with Cons.prems t have run: "dedup_loop pool (insert t seen) (acc @ [(doc, score)]) = Inr res"
      by (simp add: p)
    have inv: "Some ` insert t seen = (\<lambda>p. metadata (fst p) SOURCE) ` set (acc @ [(doc, score)])"
      using Cons.prems(2) t by auto
    from Cons.IH[OF run inv] show ?thesis by (simp add: p)
  qed
qed

lemma dedup_loop_subseq:
  "dedup_loop pool seen acc = Inr res \<Longrightarrow> \<exists>kept. res = acc @ kept \<and> subseq kept pool"
proof (induction pool arbitrary: seen acc)
  case Nil
  then show ?case by simp
next
  case (Cons p pool)
  obtain doc score where p: "p = (doc, score)" by (cases p)
  from Cons.prems(1) obtain t where t: "metadata doc SOURCE = Some t"
    by (auto simp: p split: option.splits)
  show ?case
  proof (cases "t \<in> seen")
    case True
    with Cons.prems t have run: "dedup_loop pool seen acc = Inr res" by (simp add: p)
    from Cons.IH[OF run] show ?thesis by auto
  next
    case False
    with Cons.prems t have run: "dedup_loop pool (insert t seen) (acc @ [(doc, score)]) = Inr res"
      by (simp add: p)
    from Cons.IH[OF run] obtain kept where "res = (acc @ [(doc, score)]) @ kept" "subseq kept pool"
      by blast
    then have "res = acc @ ((doc, score) # kept) \<and> subseq ((doc, score) # kept) (p # pool)"
      by (simp add: p)
    then show ?thesis by blast
  qed
qed

lemma dedup_loop_sources_present:
  "dedup_loop pool seen acc = Inr res \<Longrightarrow> p \<in> set pool \<Longrightarrow> metadata (fst p) SOURCE \<noteq> None"
proof (induction pool arbitrary: seen acc)
  case Nil
  then show ?case by simp
next
  case (Cons q pool)
  obtain doc score where q: "q = (doc, score)" by (cases q)
  from Cons.prems(1) obtain t where t: "metadata doc SOURCE = Some t"
    by (auto simp: q split: option.splits)
  from Cons.prems(1) t obtain seen' acc' where run: "dedup_loop pool seen' acc' = Inr res"
    by (auto simp: q split: if_splits)
  show ?case
  proof (cases "p = q")
    case True
    then show ?thesis using t q by simp
  next
    case False
    with Cons.prems(2) have "p \<in> set pool" by simp
    from Cons.IH[OF run this] show ?thesis .
  qed
qed

lemma dedup_loop_total:
  "\<forall>p\<in>set pool. metadata (fst p) SOURCE \<noteq> None \<Longrightarrow> \<exists>res. dedup_loop pool seen acc = Inr res"
  by (induction pool arbitrary: seen acc) (auto split: option.splits)

lemma unique_distinct:
  "unique_retrieved_docs pool = Inr u \<Longrightarrow> distinct (map (\<lambda>p. metadata (fst p) SOURCE) u)"
  unfolding unique_retrieved_docs_def by (rule dedup_loop_distinct) auto

lemma unique_find:
  "unique_retrieved_docs pool = Inr u \<Longrightarrow>
   find (\<lambda>q. metadata (fst q) SOURCE = Some s) u = find (\<lambda>q. metadata (fst q) SOURCE = Some s) pool"
  unfolding unique_retrieved_docs_def using dedup_loop_find[of pool "{}" "[]" u s] by simp

lemma unique_subseq: "unique_retrieved_docs pool = Inr u \<Longrightarrow> subseq u pool"
  unfolding unique_retrieved_docs_def using dedup_loop_subseq[of pool "{}" "[]" u] by simp

lemma unique_sources_present:
  "unique_retrieved_docs pool = Inr u \<Longrightarrow> p \<in> set pool \<Longrightarrow> metadata (fst p) SOURCE \<noteq> None"
  unfolding unique_retrieved_docs_def using dedup_loop_sources_present by blast



lemma py_slice_to_map: "map f (py_slice_to k xs) = py_slice_to k (map f xs)"
  by (simp add: py_slice_to_def take_map)


lemma py_slice_to_distinct: "distinct xs \<Longrightarrow> distinct (py_slice_to k xs)"
  by (simp add: py_slice_to_def)

lemma py_slice_to_length: "0 \<le> k \<Longrightarrow> length (py_slice_to k xs) \<le> nat k"
  by (simp add: py_slice_to_def)

lemma top_docs_distinct:
  assumes "top_docs k pool = Inr t"
  shows "distinct (map (\<lambda>p. metadata (fst p) SOURCE) t)"
proof -
  from assms obtain u where u: "unique_retrieved_docs pool = Inr u"
    and t: "t = py_slice_to k (sort_key snd u)"
    unfolding top_docs_def by (cases "unique_retrieved_docs pool") auto
  have eq: "mset (map (\<lambda>p. metadata (fst p) SOURCE) (sort_key snd u)) =
        mset (map (\<lambda>p. metadata (fst p) SOURCE) u)"
    by simp
  have "distinct (map (\<lambda>p. metadata (fst p) SOURCE) (sort_key snd u))"
    using unique_distinct[OF u] mset_eq_imp_distinct_iff[OF eq] by blast
  then show ?thesis
    unfolding t py_slice_to_map by (rule py_slice_to_distinct)
qed

lemma process_documents_distinct:
  assumes "process_documents k pool = Inr out"
  shows "distinct (map (\<lambda>d. metadata d SOURCE) out)"
proof -
  from assms obtain t where t: "top_docs k pool = Inr t" and out: "out = map fst t"
    unfolding process_documents_def by (cases "top_docs k pool") auto
  have eq: "map (\<lambda>d. metadata d SOURCE) (map fst t) = map (\<lambda>p. metadata (fst p) SOURCE) t"
    by (induction t) auto
  have d: "distinct (map (\<lambda>p. metadata (fst p) SOURCE) t)" by (rule top_docs_distinct[OF t])
  show ?thesis unfolding out eq by (rule d)
qed

text \<open>
  \<open>_process_documents\<close> returns a list exactly when every pooled document has a source
  id; otherwise the lookup \<open>doc.metadata[SOURCE]\<close> raises.
\<close>

lemma process_documents_returns:
  "(\<exists>out. process_documents k pool = Inr out) \<longleftrightarrow> (\<forall>p\<in>set pool. metadata (fst p) SOURCE \<noteq> None)"
proof
  assume "\<exists>out. process_documents k pool = Inr out"
  then obtain u where "unique_retrieved_docs pool = Inr u"
    unfolding process_documents_def top_docs_def
    by (cases "unique_retrieved_docs pool") auto
  then show "\<forall>p\<in>set pool. metadata (fst p) SOURCE \<noteq> None"
    using unique_sources_present by blast
next
  assume "\<forall>p\<in>set pool. metadata (fst p) SOURCE \<noteq> None"
  from dedup_loop_total[OF this, of "{}" "[]"] obtain u where "unique_retrieved_docs pool = Inr u"
    unfolding unique_retrieved_docs_def by blast
  then show "\<exists>out. process_documents k pool = Inr out"
    by (simp add: process_documents_def top_docs_def)
qed

text \<open>The result is no longer than a non-negative \<open>top_k_results\<close>.\<close>

lemma process_documents_length:
  assumes "process_documents k pool = Inr out" "0 \<le> k"
  shows "length out \<le> nat k"
proof -
  from assms(1) obtain u where "unique_retrieved_docs pool = Inr u"
    and "out = map fst (py_slice_to k (sort_key snd u))"
    unfolding process_documents_def top_docs_def
    by (cases "unique_retrieved_docs pool") auto
  with py_slice_to_length[OF assms(2)] show ?thesis by simp
qed

section \<open>Retrieval: ranking and deduplication\<close>

lemma unique_pool_three: "unique_retrieved_docs pool_three = Inr [(docY, 0.5), (docX, 0.9)]"
  by (simp add: unique_retrieved_docs_def pool_three_def docX_def docY_def SOURCE_def)

lemma top_docs_pool_three: "top_docs 20 pool_three = Inr [(docY, 0.5), (docX, 0.9)]"
  by (simp add: top_docs_def unique_pool_three py_slice_to_def)

lemma process_pool_three: "process_documents 20 pool_three = Inr [docY, docX]"
  by (simp add: process_documents_def top_docs_pool_three)




lemma unique_pool_two: "unique_retrieved_docs pool_two_queries = Inr [(docX, 0.9)]"
  by (simp add: unique_retrieved_docs_def pool_two_queries_def docX_def SOURCE_def)

text \<open>
  Claim C2: deduplication by source is first-seen wins. The entries kept are a subsequence
  of the pool (query order, then rank order), no source is kept twice, and for every
  source the entry kept is the first entry of the pool with that source, with its score;
  a later entry of the same source, whatever its score, is dropped.
\<close>

theorem dedup_first_seen_wins:
  assumes "unique_retrieved_docs pool = Inr u"
  shows "subseq u pool \<and> distinct (map (\<lambda>p. metadata (fst p) SOURCE) u) \<and>
         (\<forall>s. find (\<lambda>q. metadata (fst q) SOURCE = Some s) u =
              find (\<lambda>q. metadata (fst q) SOURCE = Some s) pool)"
  using unique_subseq[OF assms] unique_distinct[OF assms] unique_find[OF assms] by blast

text \<open>
  The example of the spec: query "a" returns X with score 0.9, query "b" returns X with
  score 0.1; X is kept with 0.9.
\<close>

theorem dedup_first_seen_wins_witness:
  "unique_retrieved_docs pool_two_queries = Inr [(docX, 0.9)] \<and>
   subseq [(docX, 0.9)] pool_two_queries \<and>
   find (\<lambda>q. metadata (fst q) SOURCE = Some ''conv1-4'') pool_two_queries = Some (docX, 0.9)"
  using dedup_first_seen_wins[OF unique_pool_two] unique_pool_two
  by (simp add: pool_two_queries_def docX_def SOURCE_def)

section \<open>Contexts\<close>

lemma dict_with_input_le: "input \<subseteq>\<^sub>m dict_with_input key v input"
  by (simp add: dict_with_input_def)

lemma dict_with_input_dom: "dom (dict_with_input key v input) = insert key (dom input)"
  by (auto simp: dict_with_input_def)

lemma dict_with_input_fresh: "input key = None \<Longrightarrow> dict_with_input key v input = input(key \<mapsto> v)"
  by (rule ext) (simp add: dict_with_input_def map_add_def split: option.splits)

lemma dict_with_input_stale: "input key = Some w \<Longrightarrow> dict_with_input key v input = input"
  by (rule ext) (simp add: dict_with_input_def map_add_def split: option.splits)

section \<open>Retrieval: the stage\<close>

lemma MessageRetrieval_invoke_Inr:
  fixes self :: "('s::linorder) MessageRetrieval"
  assumes "MessageRetrieval_invoke self input = (calls, Inr out_ctx)"
  shows "\<exists>(pool :: 's scored list) docs. process_documents (top_k_results self) pool = Inr docs \<and>
           out_ctx = dict_with_input RETRIEVED_MESSAGES (VList (map PDoc docs)) input"
proof -
  obtain cs r where sl: "search_loop (vector_store self) (max_returned_search self)
      (py_iter (py_get input QUERY_VARIATIONS (VList []))) [] [] = (cs, r)"
    by (cases "search_loop (vector_store self) (max_returned_search self)
      (py_iter (py_get input QUERY_VARIATIONS (VList []))) [] []") auto
  from assms sl obtain pool where r: "r = Inr pool"
    by (cases r) (auto simp: MessageRetrieval_invoke_def)
  from assms sl r obtain docs where d: "process_documents (top_k_results self) pool = Inr docs"
    by (cases "process_documents (top_k_results self) pool") (auto simp: MessageRetrieval_invoke_def)
  from assms sl r d have "out_ctx = dict_with_input RETRIEVED_MESSAGES (VList (map PDoc docs)) input"
    by (simp add: MessageRetrieval_invoke_def)
  with d show ?thesis by blast
qed

lemma invoke_ab:
  "MessageRetrieval_invoke retrieval_ab ctx_ab =
     ([(PStr ''a'', 10), (PStr ''b'', 10)],
      Inr (dict_with_input RETRIEVED_MESSAGES (VList [PDoc docY, PDoc docX]) ctx_ab))"
proof -
  have q: "py_iter (py_get ctx_ab QUERY_VARIATIONS (VList [])) = [PStr ''a'', PStr ''b'']"
    by (simp add: py_iter_def py_get_def ctx_ab_def QUERY_VARIATIONS_def QUESTION_def)
  have s: "search_loop store_ab 10 [PStr ''a'', PStr ''b''] [] [] =
             ([(PStr ''a'', 10), (PStr ''b'', 10)], Inr pool_three)"
    by (simp add: store_ab_def pool_three_def)
  have v: "vector_store retrieval_ab = store_ab" "max_returned_search retrieval_ab = 10"
    "top_k_results retrieval_ab = 20"
    by (simp_all add: retrieval_ab_def)
  show ?thesis
    unfolding MessageRetrieval_invoke_def Let_def q v s by (simp add: process_pool_three)
qed

lemma ctx_ab_fresh: "ctx_ab RETRIEVED_MESSAGES = None"
  by (simp add: ctx_ab_def RETRIEVED_MESSAGES_def QUERY_VARIATIONS_def QUESTION_def)

text \<open>
  Claim C4: the list a retrieval run returns holds no two documents with the same source
  id. This holds for every list \<open>_process_documents\<close> returns, and so for the
  \<open>retrieved_messages\<close> field the stage adds to a context that does not hold the field
  yet.
\<close>

theorem retrieved_messages_distinct_sources:
  "(\<forall>out. process_documents k pool = Inr out \<longrightarrow> distinct (map (\<lambda>d. metadata d SOURCE) out)) \<and>
   (\<forall>calls out_ctx.
      MessageRetrieval_invoke (self :: ('s::linorder) MessageRetrieval) input = (calls, Inr out_ctx) \<and>
      input RETRIEVED_MESSAGES = None \<longrightarrow>
      (\<exists>docs. out_ctx RETRIEVED_MESSAGES = Some (VList (map PDoc docs)) \<and>
              distinct (map (\<lambda>d. metadata d SOURCE) docs)))"
proof (intro conjI allI impI)
  fix out assume "process_documents k pool = Inr out"
  then show "distinct (map (\<lambda>d. metadata d SOURCE) out)" by (rule process_documents_distinct)
next
  fix calls out_ctx
  assume a: "MessageRetrieval_invoke self input = (calls, Inr out_ctx) \<and> input RETRIEVED_MESSAGES = None"
  then have run: "MessageRetrieval_invoke self input = (calls, Inr out_ctx)" by simp
  from MessageRetrieval_invoke_Inr[OF run]
  obtain p :: "'s scored list" and docs where d: "process_documents (top_k_results self) p = Inr docs"
    and o: "out_ctx = dict_with_input RETRIEVED_MESSAGES (VList (map PDoc docs)) input"
    by blast
  from a o have "out_ctx RETRIEVED_MESSAGES = Some (VList (map PDoc docs))"
    by (simp add: dict_with_input_fresh)
  with process_documents_distinct[OF d]
  show "\<exists>docs. out_ctx RETRIEVED_MESSAGES = Some (VList (map PDoc docs)) \<and>
              distinct (map (\<lambda>d. metadata d SOURCE) docs)" by blast
qed

theorem retrieved_messages_distinct_sources_witness:
  "process_documents 20 pool_three = Inr [docY, docX] \<and>
   distinct (map (\<lambda>d. metadata d SOURCE) [docY, docX]) \<and>
   MessageRetrieval_invoke retrieval_ab ctx_ab =
     ([(PStr ''a'', 10), (PStr ''b'', 10)],
      Inr (dict_with_input RETRIEVED_MESSAGES (VList [PDoc docY, PDoc docX]) ctx_ab)) \<and>
   ctx_ab RETRIEVED_MESSAGES = None \<and>
   dict_with_input RETRIEVED_MESSAGES (VList [PDoc docY, PDoc docX]) ctx_ab RETRIEVED_MESSAGES =
     Some (VList (map PDoc [docY, docX]))"
  using retrieved_messages_distinct_sources[of 20 pool_three retrieval_ab ctx_ab]
    process_pool_three invoke_ab ctx_ab_fresh
  by (simp add: dict_with_input_fresh)

text \<open>
  Claim C5: with an empty query set (the field \<open>query_variations\<close> is an empty list, or
  is missing so that the default \<open>[]\<close> is taken) no call reaches the vector store and
  the stage adds an empty \<open>retrieved_messages\<close> list, for every store and every
  configuration.
\<close>

theorem empty_variations_no_search:
  assumes "input QUERY_VARIATIONS = None \<or> input QUERY_VARIATIONS = Some (VList [])"
    and "input RETRIEVED_MESSAGES = None"
  shows "MessageRetrieval_invoke self input = ([], Inr (input(RETRIEVED_MESSAGES \<mapsto> VList [])))"
proof -
  from assms(1) have q: "py_iter (py_get input QUERY_VARIATIONS (VList [])) = []"
    by (auto simp: py_iter_def py_get_def)
  have p: "process_documents (top_k_results self) ([] :: 'a scored list) = Inr []"
    by (simp add: process_documents_def top_docs_def unique_retrieved_docs_def py_slice_to_def)
  show ?thesis
    using dict_with_input_fresh[of input RETRIEVED_MESSAGES "VList []"] assms(2)
    by (simp add: MessageRetrieval_invoke_def q p)
qed

lemma ctx_no_variations_facts:
  "ctx_no_variations QUERY_VARIATIONS = Some (VList [])" "ctx_no_variations RETRIEVED_MESSAGES = None"
  by (simp_all add: ctx_no_variations_def RETRIEVED_MESSAGES_def QUERY_VARIATIONS_def QUESTION_def)

theorem empty_variations_no_search_witness:
  "ctx_no_variations QUERY_VARIATIONS = Some (VList []) \<and>
   ctx_no_variations RETRIEVED_MESSAGES = None \<and>
   MessageRetrieval_invoke retrieval_ab ctx_no_variations =
     ([], Inr (ctx_no_variations(RETRIEVED_MESSAGES \<mapsto> VList [])))"
  using empty_variations_no_search[of ctx_no_variations retrieval_ab] ctx_no_variations_facts
  by simp

section \<open>The stages and the context\<close>

text \<open>
  The expansion stage by cases of what the chat model does: it fails with the error of
  \<open>with_structured_output\<close> or of the structured call, fails with AttributeError when the
  call returns \<open>None\<close>, and otherwise adds the parsed variations.
\<close>

lemma QueryVariation_invoke_cases:
  "QueryVariation_invoke self input =
     (case llm_instance self of
        Inl e \<Rightarrow> Inl e
      | Inr structured_llm \<Rightarrow>
          (case structured_llm (py_get input QUESTION (VStr [])) of
             Inl e \<Rightarrow> Inl e
           | Inr None \<Rightarrow> Inl AttributeError
           | Inr (Some response) \<Rightarrow>
               Inr (dict_with_input QUERY_VARIATIONS
                      (VList (map PStr (query_variations response))) input)))"
  by (simp add: QueryVariation_invoke_def)

lemma QueryVariation_invoke_Inr_iff:
  "QueryVariation_invoke self input = Inr out_ctx \<longleftrightarrow>
     (\<exists>structured_llm response.
        llm_instance self = Inr structured_llm \<and>
        structured_llm (py_get input QUESTION (VStr [])) = Inr (Some response) \<and>
        out_ctx = dict_with_input QUERY_VARIATIONS (VList (map PStr (query_variations response))) input)"
  unfolding QueryVariation_invoke_cases
  by (auto split: sum.splits option.splits)


lemma QueryVariation_invoke_Inr:
  assumes "QueryVariation_invoke self input = Inr out_ctx"
  shows "\<exists>v. out_ctx = dict_with_input QUERY_VARIATIONS v input"
  using assms unfolding QueryVariation_invoke_Inr_iff by blast

lemma FormulateAnswer_invoke_Inr:
  assumes "FormulateAnswer_invoke self input = Inr out_ctx"
  shows "\<exists>v. out_ctx = dict_with_input ANSWER v input"
proof -
  from assms obtain structured_llm where l: "answer_llm_instance self = Inr structured_llm"
    unfolding FormulateAnswer_invoke_def Let_def
    by (cases "answer_llm_instance self") auto
  from assms l obtain contents where
    c: "page_contents (py_iter (py_get input RETRIEVED_MESSAGES (VList []))) = Inr contents"
    unfolding FormulateAnswer_invoke_def Let_def
    by (cases "page_contents (py_iter (py_get input RETRIEVED_MESSAGES (VList [])))") auto
  let ?req = "\<lparr>system_message = answer_formulation_prompt,
                human_template = answer_formulation_template,
                question_value = py_get input QUESTION (VStr []),
                retrieved_messages_value = join [CHR 0x0A] contents\<rparr>"
  from assms l c obtain r where r: "structured_llm ?req = Inr r"
    unfolding FormulateAnswer_invoke_def Let_def
    by (cases "structured_llm ?req") auto
  from assms l c r obtain response where "r = Some response"
    unfolding FormulateAnswer_invoke_def Let_def
    by (cases r) auto
  with assms l c r have "out_ctx = dict_with_input ANSWER (VStr (answer response)) input"
    unfolding FormulateAnswer_invoke_def Let_def by simp
  then show ?thesis by blast
qed

lemma MessageRetrieval_invoke_Inr_ctx:
  fixes self :: "('s::linorder) MessageRetrieval"
  assumes "MessageRetrieval_invoke self input = (calls, Inr out_ctx)"
  shows "\<exists>v. out_ctx = dict_with_input RETRIEVED_MESSAGES v input"
  using MessageRetrieval_invoke_Inr[OF assms] by blast


text \<open>
  Claim C6: each stage returns its input context with one field added. The output is the
  dictionary \<open>{KEY: value, **input_}\<close> for the stage's own key (\<open>query_variations\<close>,
  \<open>retrieved_messages\<close>, \<open>answer\<close>): every key-value pair of the input is in the output
  unchanged (so the question survives each stage), and the keys of the output are the keys
  of the input and the stage's own key.
\<close>

theorem stages_extend_context:
  "(QueryVariation_invoke qv input = Inr out1 \<longrightarrow>
      (\<exists>v. out1 = dict_with_input QUERY_VARIATIONS v input) \<and>
      input \<subseteq>\<^sub>m out1 \<and> dom out1 = insert QUERY_VARIATIONS (dom input)) \<and>
   (MessageRetrieval_invoke (mr :: ('s::linorder) MessageRetrieval) input = (calls, Inr out2) \<longrightarrow>
      (\<exists>v. out2 = dict_with_input RETRIEVED_MESSAGES v input) \<and>
      input \<subseteq>\<^sub>m out2 \<and> dom out2 = insert RETRIEVED_MESSAGES (dom input)) \<and>
   (FormulateAnswer_invoke fa input = Inr out3 \<longrightarrow>
      (\<exists>v. out3 = dict_with_input ANSWER v input) \<and>
      input \<subseteq>\<^sub>m out3 \<and> dom out3 = insert ANSWER (dom input))"
proof (intro conjI impI)
  assume "QueryVariation_invoke qv input = Inr out1"
  from QueryVariation_invoke_Inr[OF this]
  show v: "\<exists>v. out1 = dict_with_input QUERY_VARIATIONS v input" .
  then obtain v where "out1 = dict_with_input QUERY_VARIATIONS v input" ..
  then show "input \<subseteq>\<^sub>m out1" "dom out1 = insert QUERY_VARIATIONS (dom input)"
    by (simp_all add: dict_with_input_le dict_with_input_dom)
next
  assume "MessageRetrieval_invoke mr input = (calls, Inr out2)"
  from MessageRetrieval_invoke_Inr_ctx[OF this]
  show v: "\<exists>v. out2 = dict_with_input RETRIEVED_MESSAGES v input" .
  then obtain v where "out2 = dict_with_input RETRIEVED_MESSAGES v input" ..
  then show "input \<subseteq>\<^sub>m out2" "dom out2 = insert RETRIEVED_MESSAGES (dom input)"
    by (simp_all add: dict_with_input_le dict_with_input_dom)
next
  assume "FormulateAnswer_invoke fa input = Inr out3"
  from FormulateAnswer_invoke_Inr[OF this]
  show v: "\<exists>v. out3 = dict_with_input ANSWER v input" .
  then obtain v where "out3 = dict_with_input ANSWER v input" ..
  then show "input \<subseteq>\<^sub>m out3" "dom out3 = insert ANSWER (dom input)"
    by (simp_all add: dict_with_input_le dict_with_input_dom)
qed

theorem stages_extend_context_witness:
  "QueryVariation_invoke expansion_ring ctx_ab =
     Inr (dict_with_input QUERY_VARIATIONS
            (VList [PStr ''I bought a ring at the jewelry shop yesterday.'']) ctx_ab) \<and>
   ctx_ab \<subseteq>\<^sub>m dict_with_input QUERY_VARIATIONS
            (VList [PStr ''I bought a ring at the jewelry shop yesterday.'']) ctx_ab \<and>
   MessageRetrieval_invoke retrieval_ab ctx_ab =
     ([(PStr ''a'', 10), (PStr ''b'', 10)],
      Inr (dict_with_input RETRIEVED_MESSAGES (VList [PDoc docY, PDoc docX]) ctx_ab)) \<and>
   dom (dict_with_input RETRIEVED_MESSAGES (VList [PDoc docY, PDoc docX]) ctx_ab) =
     insert RETRIEVED_MESSAGES (dom ctx_ab) \<and>
   FormulateAnswer_invoke synthesis_other ctx_ab =
     Inr (dict_with_input ANSWER (VStr ''There are no messages about rings.'') ctx_ab) \<and>
   ctx_ab \<subseteq>\<^sub>m dict_with_input ANSWER (VStr ''There are no messages about rings.'') ctx_ab"
proof -
  have r1: "QueryVariation_invoke expansion_ring ctx_ab =
     Inr (dict_with_input QUERY_VARIATIONS
            (VList [PStr ''I bought a ring at the jewelry shop yesterday.'']) ctx_ab)"
    by (simp add: QueryVariation_invoke_def expansion_ring_def)
  have "py_iter (py_get ctx_ab RETRIEVED_MESSAGES (VList [])) = []"
    by (simp add: py_iter_def py_get_def ctx_ab_fresh)
  then have r3: "FormulateAnswer_invoke synthesis_other ctx_ab =
     Inr (dict_with_input ANSWER (VStr ''There are no messages about rings.'') ctx_ab)"
    by (simp add: FormulateAnswer_invoke_def synthesis_other_def)
  from r1 invoke_ab r3
    stages_extend_context[of expansion_ring ctx_ab
      "dict_with_input QUERY_VARIATIONS
         (VList [PStr ''I bought a ring at the jewelry shop yesterday.'']) ctx_ab"
      retrieval_ab "[(PStr ''a'', 10), (PStr ''b'', 10)]"
      "dict_with_input RETRIEVED_MESSAGES (VList [PDoc docY, PDoc docX]) ctx_ab"
      synthesis_other
      "dict_with_input ANSWER (VStr ''There are no messages about rings.'') ctx_ab"]
  show ?thesis by simp
qed









section \<open>Embeddings\<close>







section \<open>Loading\<close>

lemma files_loop_step:
  assumes "path_is_file fs file_path = Inr is_file"
  shows "files_loop fs (file_path # rest) st =
     files_loop fs rest
       (if is_file
        then (case parse_file fs file_path of
                Inr doc \<Rightarrow> st\<lparr>yielded := yielded st @ [doc]\<rparr>
              | Inl e \<Rightarrow> st\<lparr>logged := logged st @ [error_record file_path e]\<rparr>)
        else st\<lparr>logged := logged st @ [LogWarning file_path]\<rparr>)"
  using assms by (cases "parse_file fs file_path") (simp_all add: error_record_def)

lemma files_accessible_Cons:
  "files_accessible fs (p # ps) \<longleftrightarrow> (\<exists>b. path_is_file fs p = Inr b) \<and> files_accessible fs ps"
  by (cases "path_is_file fs p") (simp_all add: files_accessible_def)

lemma files_loop_raised:
  "files_accessible fs file_paths \<Longrightarrow> raised (files_loop fs file_paths st) = raised st"
proof (induction file_paths arbitrary: st)
  case Nil
  then show ?case by simp
next
  case (Cons p ps)
  from Cons.prems obtain b where b: "path_is_file fs p = Inr b" and ps: "files_accessible fs ps"
    unfolding files_accessible_Cons by blast
  show ?case
    unfolding files_loop_step[OF b] Cons.IH[OF ps]
    by (cases "parse_file fs p") simp_all
qed

lemma files_loop_yielded:
  "files_accessible fs file_paths \<Longrightarrow>
   yielded (files_loop fs file_paths st) = yielded st @ documents_of_files fs file_paths"
proof (induction file_paths arbitrary: st)
  case Nil
  then show ?case by (simp add: documents_of_files_def)
next
  case (Cons p ps)
  from Cons.prems obtain b where b: "path_is_file fs p = Inr b" and ps: "files_accessible fs ps"
    unfolding files_accessible_Cons by blast
  show ?case
    unfolding files_loop_step[OF b] Cons.IH[OF ps]
    using b by (cases "parse_file fs p") (simp_all add: documents_of_files_def)
qed

lemma files_loop_log_mono:
  "files_accessible fs file_paths \<Longrightarrow> set (logged st) \<subseteq> set (logged (files_loop fs file_paths st))"
proof (induction file_paths arbitrary: st)
  case Nil
  then show ?case by simp
next
  case (Cons p ps)
  from Cons.prems obtain b where b: "path_is_file fs p = Inr b" and ps: "files_accessible fs ps"
    unfolding files_accessible_Cons by blast
  let ?st1 = "if b
        then (case parse_file fs p of
                Inr doc \<Rightarrow> st\<lparr>yielded := yielded st @ [doc]\<rparr>
              | Inl e \<Rightarrow> st\<lparr>logged := logged st @ [error_record p e]\<rparr>)
        else st\<lparr>logged := logged st @ [LogWarning p]\<rparr>"
  have "set (logged st) \<subseteq> set (logged ?st1)"
    by (cases "parse_file fs p") auto
  also have "\<dots> \<subseteq> set (logged (files_loop fs ps ?st1))" by (rule Cons.IH[OF ps])
  finally show ?case unfolding files_loop_step[OF b] .
qed

lemma files_loop_log_error:
  "files_accessible fs file_paths \<Longrightarrow> file_path \<in> set file_paths \<Longrightarrow>
   path_is_file fs file_path = Inr True \<Longrightarrow> parse_file fs file_path = Inl e \<Longrightarrow>
   error_record file_path e \<in> set (logged (files_loop fs file_paths st))"
proof (induction file_paths arbitrary: st)
  case Nil
  then show ?case by simp
next
  case (Cons p ps)
  from Cons.prems(1) obtain b where b: "path_is_file fs p = Inr b" and ps: "files_accessible fs ps"
    unfolding files_accessible_Cons by blast
  show ?case
  proof (cases "file_path = p")
    case True
    with Cons.prems(3) b have bt: "b = True" by simp
    have "error_record p e \<in> set (logged (st\<lparr>logged := logged st @ [error_record p e]\<rparr>))"
      by simp
    with files_loop_log_mono[OF ps, of "st\<lparr>logged := logged st @ [error_record p e]\<rparr>"]
    have "error_record p e \<in> set (logged (files_loop fs ps (st\<lparr>logged := logged st @ [error_record p e]\<rparr>)))"
      by blast
    with True Cons.prems(4) bt show ?thesis unfolding files_loop_step[OF b] by simp
  next
    case False
    with Cons.prems(2) have "file_path \<in> set ps" by simp
    from Cons.IH[OF ps this Cons.prems(3,4)] show ?thesis unfolding files_loop_step[OF b] .
  qed
qed

text \<open>
  One step of the loop over the directories, for a directory whose calls do not raise.
\<close>

lemma dirs_loop_step:
  assumes "dir_accessible fs (joinpath fs data d)" "raised st = None"
  shows "\<exists>st'. dirs_loop fs data (d # ds) st = dirs_loop fs data ds st' \<and>
           raised st' = None \<and>
           yielded st' = yielded st @ documents_of_dir fs (joinpath fs data d) \<and>
           set (logged st) \<subseteq> set (logged st') \<and>
           (\<forall>file_paths file_path e.
              path_exists fs (joinpath fs data d) = Inr True \<and>
              glob_json fs (joinpath fs data d) = Inr file_paths \<and> file_path \<in> set file_paths \<and>
              path_is_file fs file_path = Inr True \<and> parse_file fs file_path = Inl e \<longrightarrow>
              error_record file_path e \<in> set (logged st'))"
proof -
  let ?dp = "joinpath fs data d"
  let ?st1 = "st\<lparr>logged := logged st @ [LogInfo ?dp]\<rparr>"
  from assms(1) obtain ex where ex: "path_exists fs ?dp = Inr ex"
    unfolding dir_accessible_def by (cases "path_exists fs ?dp") auto
  show ?thesis
  proof (cases ex)
    case False
    let ?st' = "st\<lparr>logged := logged st @ [LogWarning ?dp]\<rparr>"
    have "dirs_loop fs data (d # ds) st = dirs_loop fs data ds ?st'"
      using ex False by (simp add: Let_def)
    moreover have "raised ?st' = None" using assms(2) by simp
    moreover have "yielded ?st' = yielded st @ documents_of_dir fs ?dp"
      using ex False by (simp add: documents_of_dir_def)
    moreover have "set (logged st) \<subseteq> set (logged ?st')" by auto
    ultimately show ?thesis using ex False by (intro exI[of _ ?st']) simp
  next
    case True
    with assms(1) ex obtain ps where ps: "glob_json fs ?dp = Inr ps" and acc: "files_accessible fs ps"
      unfolding dir_accessible_def by (cases "glob_json fs ?dp") auto
    show ?thesis
    proof (cases "ps = []")
      case e: True
      let ?st' = "?st1\<lparr>logged := logged ?st1 @ [LogWarning ?dp]\<rparr>"
      have "dirs_loop fs data (d # ds) st = dirs_loop fs data ds ?st'"
        using ex True ps e by (simp add: Let_def)
      moreover have "raised ?st' = None" using assms(2) by simp
      moreover have "yielded ?st' = yielded st @ documents_of_dir fs ?dp"
        using ex True ps e by (simp add: documents_of_dir_def documents_of_files_def)
      moreover have "set (logged st) \<subseteq> set (logged ?st')" by auto
      ultimately show ?thesis using ps e by (intro exI[of _ ?st']) simp
    next
      case ne: False
      let ?st' = "files_loop fs ps ?st1"
      have r: "raised ?st' = None" using files_loop_raised[OF acc, of ?st1] assms(2) by simp
      have "dirs_loop fs data (d # ds) st = dirs_loop fs data ds ?st'"
        using ex True ps ne r by (simp add: Let_def)
      moreover have "yielded ?st' = yielded st @ documents_of_dir fs ?dp"
        using ex True ps by (simp add: files_loop_yielded[OF acc] documents_of_dir_def)
      moreover have "set (logged st) \<subseteq> set (logged ?st')"
        using files_loop_log_mono[OF acc, of ?st1] by auto
      moreover have "error_record file_path e \<in> set (logged ?st')"
        if "file_path \<in> set ps" "path_is_file fs file_path = Inr True" "parse_file fs file_path = Inl e"
        for file_path e
        using files_loop_log_error[OF acc that] .
      ultimately show ?thesis using ps r by (intro exI[of _ ?st']) auto
    qed
  qed
qed

lemma dirs_loop_accessible:
  assumes "list_all (\<lambda>d. dir_accessible fs (joinpath fs data d)) dirs" "raised st = None"
  shows "raised (dirs_loop fs data dirs st) = None \<and>
         yielded (dirs_loop fs data dirs st) =
           yielded st @ concat (map (\<lambda>d. documents_of_dir fs (joinpath fs data d)) dirs) \<and>
         set (logged st) \<subseteq> set (logged (dirs_loop fs data dirs st)) \<and>
         (\<forall>d file_paths file_path e.
            d \<in> set dirs \<and> path_exists fs (joinpath fs data d) = Inr True \<and>
            glob_json fs (joinpath fs data d) = Inr file_paths \<and> file_path \<in> set file_paths \<and>
            path_is_file fs file_path = Inr True \<and> parse_file fs file_path = Inl e \<longrightarrow>
            error_record file_path e \<in> set (logged (dirs_loop fs data dirs st)))"
  using assms
proof (induction dirs arbitrary: st)
  case Nil
  then show ?case by simp
next
  case (Cons a ds)
  from Cons.prems(1) have a: "dir_accessible fs (joinpath fs data a)"
    and ds: "list_all (\<lambda>d. dir_accessible fs (joinpath fs data d)) ds"
    by simp_all
  from dirs_loop_step[OF a Cons.prems(2), of ds] obtain st' where
    step: "dirs_loop fs data (a # ds) st = dirs_loop fs data ds st'"
    and r: "raised st' = None"
    and y: "yielded st' = yielded st @ documents_of_dir fs (joinpath fs data a)"
    and l: "set (logged st) \<subseteq> set (logged st')"
    and e: "\<And>file_paths file_path e.
              path_exists fs (joinpath fs data a) = Inr True \<Longrightarrow>
              glob_json fs (joinpath fs data a) = Inr file_paths \<Longrightarrow> file_path \<in> set file_paths \<Longrightarrow>
              path_is_file fs file_path = Inr True \<Longrightarrow> parse_file fs file_path = Inl e \<Longrightarrow>
              error_record file_path e \<in> set (logged st')"
    by blast
  note ih = Cons.IH[OF ds r]
  have 1: "raised (dirs_loop fs data (a # ds) st) = None" unfolding step using ih by blast
  have 2: "yielded (dirs_loop fs data (a # ds) st) =
           yielded st @ concat (map (\<lambda>d. documents_of_dir fs (joinpath fs data d)) (a # ds))"
    unfolding step using ih y by simp
  have m: "set (logged st') \<subseteq> set (logged (dirs_loop fs data ds st'))" using ih by blast
  have 3: "set (logged st) \<subseteq> set (logged (dirs_loop fs data (a # ds) st))"
    unfolding step using l m by blast
  have 4: "error_record file_path x \<in> set (logged (dirs_loop fs data (a # ds) st))"
    if "d \<in> set (a # ds)" "path_exists fs (joinpath fs data d) = Inr True"
      "glob_json fs (joinpath fs data d) = Inr file_paths" "file_path \<in> set file_paths"
      "path_is_file fs file_path = Inr True" "parse_file fs file_path = Inl x"
    for d file_paths file_path x
  proof (cases "d = a")
    case True
    with e[of file_paths file_path x] that have "error_record file_path x \<in> set (logged st')" by simp
    with m show ?thesis unfolding step by blast
  next
    case False
    with that(1) have "d \<in> set ds" by simp
    with ih that(2-6) show ?thesis unfolding step by blast
  qed
  from 1 2 3 4 show ?case by blast
qed

text \<open>
  Claim C10, as the code has it. A file whose parsing raises (a JSON decoding error or
  any other exception of \<open>_parse_file\<close>) is logged as an error and skipped; loading goes
  on. As long as the calls outside the \<open>try\<close> do not raise (\<open>exists()\<close>, \<open>glob()\<close>,
  \<open>is_file()\<close>), no failure of parsing ends the run: the generator ends without an
  exception, the documents it yields are, directory by directory and file by file, the
  documents of all regular files that parse, whatever happens to the other files, and
  every file that fails to parse is in the log with its error.
\<close>

theorem lazy_load_isolates_parse_failures:
  assumes "dirs_accessible self fs"
  shows "raised (lazy_load self fs) = None \<and>
         yielded (lazy_load self fs) =
           concat (map (\<lambda>d. documents_of_dir fs (joinpath fs (data_dir self) d)) (allowed_dirs self)) \<and>
         (\<forall>d file_paths file_path e.
            d \<in> set (allowed_dirs self) \<and> path_exists fs (joinpath fs (data_dir self) d) = Inr True \<and>
            glob_json fs (joinpath fs (data_dir self) d) = Inr file_paths \<and> file_path \<in> set file_paths \<and>
            path_is_file fs file_path = Inr True \<and> parse_file fs file_path = Inl e \<longrightarrow>
            error_record file_path e \<in> set (logged (lazy_load self fs)))"
proof -
  from assms have a: "list_all (\<lambda>d. dir_accessible fs (joinpath fs (data_dir self) d)) (allowed_dirs self)"
    by (simp add: dirs_accessible_def)
  have r: "raised \<lparr>logged = [], yielded = [], raised = None\<rparr> = None" by simp
  note t = dirs_loop_accessible[OF a r]
  from t have 1: "raised (lazy_load self fs) = None" unfolding lazy_load_def by blast
  from t have 2: "yielded (lazy_load self fs) =
           concat (map (\<lambda>d. documents_of_dir fs (joinpath fs (data_dir self) d)) (allowed_dirs self))"
    unfolding lazy_load_def by simp
  from t have 3: "\<forall>d file_paths file_path e.
            d \<in> set (allowed_dirs self) \<and> path_exists fs (joinpath fs (data_dir self) d) = Inr True \<and>
            glob_json fs (joinpath fs (data_dir self) d) = Inr file_paths \<and> file_path \<in> set file_paths \<and>
            path_is_file fs file_path = Inr True \<and> parse_file fs file_path = Inl e \<longrightarrow>
            error_record file_path e \<in> set (logged (lazy_load self fs))"
    unfolding lazy_load_def by blast
  from 1 2 3 show ?thesis by blast
qed

lemma fs_example_facts:
  "path_exists fs_example = (\<lambda>p. Inr True)" "path_is_file fs_example = (\<lambda>p. Inr True)"
  "glob_json fs_example = (\<lambda>d. Inr [''a.json'', ''bad.json'', ''c.json''])"
  "parse_file fs_example = (\<lambda>p. if p = ''bad.json'' then Inl (JSONDecodeError ''Expecting value'')
                         else Inr (doc_of_file p))"
  "joinpath fs_example = (\<lambda>a b. a @ ''/'' @ b)"
  by (simp_all add: fs_example_def)

lemma loader_example_facts:
  "allowed_dirs loader_example = [''inbox'']" "data_dir loader_example = ''mb''"
  by (simp_all add: loader_example_def)

theorem lazy_load_isolates_parse_failures_witness:
  "dirs_accessible loader_example fs_example \<and>
   parse_file fs_example ''bad.json'' = Inl (JSONDecodeError ''Expecting value'') \<and>
   raised (lazy_load loader_example fs_example) = None \<and>
   yielded (lazy_load loader_example fs_example) =
     [doc_of_file ''a.json'', doc_of_file ''c.json''] \<and>
   LogError ''Failed to parse'' ''bad.json'' (JSONDecodeError ''Expecting value'')
     \<in> set (logged (lazy_load loader_example fs_example))"
proof -
  have a: "dirs_accessible loader_example fs_example"
    by (simp add: dirs_accessible_def dir_accessible_def files_accessible_def
        fs_example_facts loader_example_facts)
  note t = lazy_load_isolates_parse_failures[OF a]
  from t have r: "raised (lazy_load loader_example fs_example) = None" by blast
  from t have y: "yielded (lazy_load loader_example fs_example) =
     [doc_of_file ''a.json'', doc_of_file ''c.json'']"
    by (simp add: loader_example_facts fs_example_facts documents_of_dir_def documents_of_files_def)
  from t[THEN conjunct2, THEN conjunct2, rule_format,
      of "''inbox''" "[''a.json'', ''bad.json'', ''c.json'']" "''bad.json''"
         "JSONDecodeError ''Expecting value''"]
  have "error_record ''bad.json'' (JSONDecodeError ''Expecting value'')
          \<in> set (logged (lazy_load loader_example fs_example))"
    by (simp add: loader_example_facts fs_example_facts)
  then have e: "LogError ''Failed to parse'' ''bad.json'' (JSONDecodeError ''Expecting value'')
     \<in> set (logged (lazy_load loader_example fs_example))"
    by (simp add: error_record_def is_JSONDecodeError_def)
  from a r y e show ?thesis by (simp add: fs_example_facts)
qed

text \<open>
  Claim C10 as stated fails: \<open>is_file()\<close> stands outside the \<open>try\<close>. Three files all
  parse; \<open>is_file()\<close> raises PermissionError on the second. The exception is not caught
  and not logged, the generator ends with it, and the third file is never loaded.
\<close>

theorem is_file_error_aborts_counterexample:
  "path_is_file fs_locked ''locked.json'' =
     Inl (External ''PermissionError'' ''[Errno 13] Permission denied'') \<and>
   parse_file fs_locked ''c.json'' = Inr (doc_of_file ''c.json'') \<and>
   raised (lazy_load loader_example fs_locked) =
     Some (External ''PermissionError'' ''[Errno 13] Permission denied'') \<and>
   yielded (lazy_load loader_example fs_locked) = [doc_of_file ''a.json''] \<and>
   logged (lazy_load loader_example fs_locked) = [LogInfo ''mb/inbox'']"
  by (simp add: lazy_load_def loader_example_facts fs_locked_def Let_def)

section \<open>Source ids\<close>

lemma digit_char_inj: "a < 10 \<Longrightarrow> b < 10 \<Longrightarrow> digit_char a = digit_char b \<Longrightarrow> a = b"
proof -
  assume a: "a < 10" and b: "b < 10" and e: "digit_char a = digit_char b"
  have d: "distinct ''0123456789''" by simp
  have l: "length ''0123456789'' = 10" by simp
  from e have "''0123456789'' ! a = ''0123456789'' ! b" by (simp add: digit_char_def)
  with d a b l show "a = b" by (metis nth_eq_iff_index_eq)
qed

lemma digit_char_not_dash: "d < 10 \<Longrightarrow> digit_char d \<noteq> CHR ''-''"
proof -
  assume "d < 10"
  then have "''0123456789'' ! d \<in> set ''0123456789''" by (intro nth_mem) simp
  then show ?thesis unfolding digit_char_def by auto
qed

lemma str_nat_not_empty: "str_nat n \<noteq> []"
  by (subst str_nat.simps) simp

lemma str_nat_no_dash: "CHR ''-'' \<notin> set (str_nat n)"
proof (induction n rule: str_nat.induct)
  case (1 n)
  show ?case
  proof (cases "n < 10")
    case True
    then show ?thesis using digit_char_not_dash[of n] by (subst str_nat.simps) auto
  next
    case False
    have "n mod 10 < 10" by simp
    from digit_char_not_dash[OF this] "1"[OF False] False show ?thesis
      by (subst str_nat.simps) auto
  qed
qed

lemma str_nat_inj: "str_nat m = str_nat n \<Longrightarrow> m = n"
proof (induction m arbitrary: n rule: str_nat.induct)
  case (1 m)
  show ?case
  proof (cases "m < 10")
    case m: True
    show ?thesis
    proof (cases "n < 10")
      case True
      with m "1.prems" show ?thesis
        by (simp add: str_nat.simps[of m] str_nat.simps[of n] digit_char_inj)
    next
      case False
      with m "1.prems" have "[digit_char m] = str_nat (n div 10) @ [digit_char (n mod 10)]"
        by (simp add: str_nat.simps[of m] str_nat.simps[of n])
      then have "str_nat (n div 10) = []" by simp
      with str_nat_not_empty show ?thesis by blast
    qed
  next
    case m: False
    show ?thesis
    proof (cases "n < 10")
      case True
      with m "1.prems" have "str_nat (m div 10) @ [digit_char (m mod 10)] = [digit_char n]"
        by (simp add: str_nat.simps[of m] str_nat.simps[of n])
      then have "str_nat (m div 10) = []" by simp
      with str_nat_not_empty show ?thesis by blast
    next
      case False
      with m "1.prems" have e: "str_nat (m div 10) @ [digit_char (m mod 10)] =
                              str_nat (n div 10) @ [digit_char (n mod 10)]"
        by (simp add: str_nat.simps[of m] str_nat.simps[of n])
      then have "str_nat (m div 10) = str_nat (n div 10)" by simp
      from "1.IH"[OF m this] have q: "m div 10 = n div 10" .
      from e have "digit_char (m mod 10) = digit_char (n mod 10)" by simp
      then have r: "m mod 10 = n mod 10" by (intro digit_char_inj) simp_all
      from q r show ?thesis by (metis div_mult_mod_eq)
    qed
  qed
qed

lemma dash_suffix_unique:
  assumes "c \<notin> set s" "c \<notin> set t" "a @ c # s = b @ c # t"
  shows "s = t"
proof -
  have "takeWhile (\<lambda>x. x \<noteq> c) (rev (a @ c # s)) = rev s"
    using assms(1) by (auto simp: takeWhile_tail)
  moreover have "takeWhile (\<lambda>x. x \<noteq> c) (rev (b @ c # t)) = rev t"
    using assms(2) by (auto simp: takeWhile_tail)
  ultimately show ?thesis using assms(3) by simp
qed

lemma source_id_format_inj: "source_id_format md i = source_id_format md' j \<Longrightarrow> i = j"
proof -
  assume "source_id_format md i = source_id_format md' j"
  then have "py_get md CHAT_ID ''blank'' @ CHR ''-'' # str_nat i =
             py_get md' CHAT_ID ''blank'' @ CHR ''-'' # str_nat j"
    by (simp add: source_id_format_def)
  from dash_suffix_unique[OF str_nat_no_dash str_nat_no_dash this] show ?thesis
    by (rule str_nat_inj)
qed

lemma assign_loop_other:
  "r \<notin> metadata_ref ` set texts \<Longrightarrow> assign_loop (enumerate n texts) h r = h r"
  by (induction texts arbitrary: n h) auto

lemma assign_loop_nth:
  assumes "distinct (map metadata_ref texts)" "j < length texts"
  shows "assign_loop (enumerate n texts) h (metadata_ref (texts ! j)) =
           (h (metadata_ref (texts ! j)))(''source'' \<mapsto> source_id_format (h (metadata_ref (texts ! j))) (n + j))"
  using assms
proof (induction texts arbitrary: n h j)
  case Nil
  then show ?case by simp
next
  case (Cons x xs)
  let ?h = "h(metadata_ref x := (h (metadata_ref x))(''source'' \<mapsto> source_id_format (h (metadata_ref x)) n))"
  have step: "assign_loop (enumerate n (x # xs)) h = assign_loop (enumerate (Suc n) xs) ?h"
    by simp
  from Cons.prems(1) have nx: "metadata_ref x \<notin> metadata_ref ` set xs" and dx: "distinct (map metadata_ref xs)"
    by auto
  show ?case
  proof (cases j)
    case 0
    have g: "(x # xs) ! j = x" "n + j = n" by (simp_all add: 0)
    have "assign_loop (enumerate (Suc n) xs) ?h (metadata_ref x) = ?h (metadata_ref x)"
      by (rule assign_loop_other[OF nx])
    also have "\<dots> = (h (metadata_ref x))(''source'' \<mapsto> source_id_format (h (metadata_ref x)) n)"
      by simp
    finally show ?thesis unfolding step g .
  next
    case (Suc k)
    with Cons.prems(2) have k: "k < length xs" by simp
    then have "metadata_ref (xs ! k) \<in> metadata_ref ` set xs" by simp
    with nx have ne: "metadata_ref (xs ! k) \<noteq> metadata_ref x" by auto
    have hk: "?h (metadata_ref (xs ! k)) = h (metadata_ref (xs ! k))" using ne by simp
    have ih: "assign_loop (enumerate (Suc n) xs) ?h (metadata_ref (xs ! k)) =
            (h (metadata_ref (xs ! k)))(''source'' \<mapsto> source_id_format (h (metadata_ref (xs ! k))) (Suc n + k))"
      using Cons.IH[OF dx k, of "Suc n" ?h] unfolding hk .
    have g: "(x # xs) ! j = xs ! k" "n + j = Suc n + k" by (simp_all add: Suc)
    show ?thesis unfolding step g by (rule ih)
  qed
qed

lemma assign_sources_nth:
  assumes "distinct (map metadata_ref texts)" "j < length texts"
  shows "metadata (indexed_document (assign_sources texts h) (texts ! j)) ''source'' =
           Some (source_id_format (h (metadata_ref (texts ! j))) j)"
  using assign_loop_nth[OF assms, of 0 h] by (simp add: assign_sources_def indexed_document_def)

text \<open>
  Claim C9, as the code has it. After the loop every chunk carries a source id of the
  form conversation id, a dash, a number (the conversation id is "blank" where the chunk
  has none), and the source ids of all chunks are pairwise distinct. The number is the
  index of the chunk in the list of all chunks of the run, as \<open>enumerate(texts)\<close> counts
  it, not its index within its conversation. Each chunk is taken to own its metadata
  dictionary, as the text splitter copies it.
\<close>

theorem source_ids_global_index:
  assumes "distinct (map metadata_ref texts)"
  shows "(\<forall>j<length texts.
            metadata (indexed_document (assign_sources texts h) (texts ! j)) ''source'' =
              Some (py_get (h (metadata_ref (texts ! j))) CHAT_ID ''blank'' @ ''-'' @ str_nat j)) \<and>
         distinct (map (\<lambda>t. metadata (indexed_document (assign_sources texts h) t) ''source'') texts)"
proof -
  have 1: "\<forall>j<length texts.
            metadata (indexed_document (assign_sources texts h) (texts ! j)) ''source'' =
              Some (py_get (h (metadata_ref (texts ! j))) CHAT_ID ''blank'' @ ''-'' @ str_nat j)"
    using assign_sources_nth[OF assms] by (simp add: source_id_format_def)
  have 2: "distinct (map (\<lambda>t. metadata (indexed_document (assign_sources texts h) t) ''source'') texts)"
    unfolding distinct_conv_nth
  proof (intro allI impI)
    fix i j
    assume i: "i < length (map (\<lambda>t. metadata (indexed_document (assign_sources texts h) t) ''source'') texts)"
      and j: "j < length (map (\<lambda>t. metadata (indexed_document (assign_sources texts h) t) ''source'') texts)"
      and ne: "i \<noteq> j"
    from i j have i': "i < length texts" and j': "j < length texts" by simp_all
    show "map (\<lambda>t. metadata (indexed_document (assign_sources texts h) t) ''source'') texts ! i \<noteq>
          map (\<lambda>t. metadata (indexed_document (assign_sources texts h) t) ''source'') texts ! j"
    proof
      assume "map (\<lambda>t. metadata (indexed_document (assign_sources texts h) t) ''source'') texts ! i =
          map (\<lambda>t. metadata (indexed_document (assign_sources texts h) t) ''source'') texts ! j"
      with i' j' have "source_id_format (h (metadata_ref (texts ! i))) i =
                       source_id_format (h (metadata_ref (texts ! j))) j"
        by (simp add: assign_sources_nth[OF assms])
      from source_id_format_inj[OF this] ne show False by simp
    qed
  qed
  from 1 2 show ?thesis by blast
qed

lemma str_nat_0: "str_nat 0 = ''0''"
  by (subst str_nat.simps) (simp add: digit_char_def)

lemma str_nat_1: "str_nat (Suc 0) = ''1''"
  by (subst str_nat.simps) (simp add: digit_char_def)

lemma texts_example_facts:
  "distinct (map metadata_ref texts_example)" "length texts_example = 2"
  "h (metadata_ref (texts_example ! Suc 0)) = h (Suc 0)" "h (metadata_ref (texts_example ! 0)) = h 0"
  by (simp_all add: texts_example_def)

theorem source_ids_global_index_witness:
  "distinct (map metadata_ref texts_example) \<and>
   metadata (indexed_document (assign_sources texts_example store_example) (texts_example ! 0)) ''source'' =
     Some ''alice-0'' \<and>
   metadata (indexed_document (assign_sources texts_example store_example) (texts_example ! 1)) ''source'' =
     Some ''bob-1''"
proof -
  note t = source_ids_global_index[OF texts_example_facts(1), of store_example, THEN conjunct1, rule_format]
  have a: "py_get (store_example 0) CHAT_ID ''blank'' = ''alice''"
    "py_get (store_example (Suc 0)) CHAT_ID ''blank'' = ''bob''"
    by (simp_all add: store_example_def py_get_def)
  from t[of 0] have 0: "metadata (indexed_document (assign_sources texts_example store_example) (texts_example ! 0)) ''source'' =
     Some ''alice-0''"
    by (simp add: texts_example_facts a str_nat_0)
  from t[of 1] have 1: "metadata (indexed_document (assign_sources texts_example store_example) (texts_example ! 1)) ''source'' =
     Some ''bob-1''"
    by (simp add: texts_example_facts a str_nat_1)
  from 0 1 texts_example_facts(1) show ?thesis by blast
qed

text \<open>
  Claim C9 as stated fails: the second chunk of the run is the first chunk of its
  conversation (index 0 within it), and its source id ends in 1.
\<close>

theorem source_id_conversation_index_counterexample:
  "metadata (indexed_document (assign_sources texts_example store_example) (texts_example ! 1)) ''source'' =
     Some ''bob-1'' \<and>
   spec_index_in_conversation texts_example store_example 1 = 0 \<and>
   ''bob-1'' \<noteq> py_get (store_example (metadata_ref (texts_example ! 1))) CHAT_ID ''blank'' @ ''-'' @
                str_nat (spec_index_in_conversation texts_example store_example 1)"
proof -
  have s: "assign_sources texts_example store_example 1 ''source'' = Some ''bob-1''"
    by (simp add: assign_sources_def texts_example_def store_example_def source_id_format_def
        py_get_def str_nat_1 CHAT_ID_def)
  have m: "metadata (indexed_document (assign_sources texts_example store_example) (texts_example ! 1)) ''source'' =
     Some ''bob-1''"
    using s by (simp add: indexed_document_def texts_example_def)
  have i: "spec_index_in_conversation texts_example store_example 1 = 0"
    by (simp add: spec_index_in_conversation_def texts_example_def store_example_def py_get_def)
  have "''bob-1'' \<noteq> py_get (store_example (metadata_ref (texts_example ! 1))) CHAT_ID ''blank'' @ ''-'' @
                str_nat (spec_index_in_conversation texts_example store_example 1)"
    unfolding i by (simp add: str_nat_0 texts_example_def store_example_def py_get_def)
  with m i show ?thesis by blast
qed

text \<open>
  Why the chunks must own their dictionaries: were one dictionary shared by two chunks,
  the second assignment would overwrite the first and both chunks would carry the same
  source id.
\<close>

lemma shared_metadata_collides:
  "metadata (indexed_document (assign_sources texts_shared store_example) (texts_shared ! 0)) ''source'' =
     Some ''alice-1'' \<and>
   metadata (indexed_document (assign_sources texts_shared store_example) (texts_shared ! 1)) ''source'' =
     Some ''alice-1''"
  by (simp add: assign_sources_def texts_shared_def store_example_def source_id_format_def
      py_get_def str_nat_1 CHAT_ID_def indexed_document_def)

end
